theory Spec2Isabelle
  imports Main "HOL-Library.AList"
begin

section \<open>The relay hub (signalling-server/main.go)\<close>

text \<open>
  A websocket connection is identified by a number (the identity of the
  \<^verbatim>\<open>*websocket.Conn\<close> returned by the upgrader). The struct \<^verbatim>\<open>Connection\<close> wraps one such
  pointer together with a mutex; the mutex has no sequential meaning, so a member of a room
  is stored as its connection.
\<close>

type_synonym conn = nat

record Message =
  Type :: string
  UserID :: string
  Description :: string
  Candidate :: string
  To :: string

text \<open>
  The inner Go map \<^verbatim>\<open>map[string]*interfaces.Connection\<close> is an association list with
  distinct keys. Go leaves the iteration order of \<^verbatim>\<open>range\<close> over a map open; the order
  of the list stands for the order the runtime picks.
\<close>

type_synonym clients = "(string \<times> conn) list"

text \<open>
  The state shared by all handlers. \<open>sockets\<close> is the global variable of that name.
  \<open>admitted\<close> records, for every connection whose handler passed the upgrade, the
  \<^verbatim>\<open>socket\<close> argument of that handler; \<open>finished\<close> lists the connections whose handler has
  returned; \<open>closedConns\<close> lists the connections on which \<^verbatim>\<open>Close()\<close> was called.
  \<open>acked\<close> and \<open>forwarded\<close> are the frames written successfully: the direct reply of the
  connect case, and the frames written through \<^verbatim>\<open>client.Send\<close>, each with the handler's own
  connection, the map key of the receiving entry and the receiving connection.
\<close>

record hub =
  sockets :: "string \<rightharpoonup> clients"
  admitted :: "conn \<rightharpoonup> string"
  finished :: "conn list"
  closedConns :: "conn list"
  acked :: "(conn \<times> Message) list"
  forwarded :: "(conn \<times> string \<times> conn \<times> Message) list"

definition init_hub :: hub where
  "init_hub = \<lparr>sockets = Map.empty, admitted = Map.empty, finished = [], closedConns = [],
     acked = [], forwarded = []\<rparr>"

text \<open>
  Whether a write to a connection returns an error is decided outside the program. A write
  to a closed connection fails; \<open>bad\<close> lists the further connections whose peer is gone
  while the current message is handled.
\<close>

definition write_fails :: "hub \<Rightarrow> conn list \<Rightarrow> conn \<Rightarrow> bool" where
  "write_fails st bad c = (c \<in> set (closedConns st) \<or> c \<in> set bad)"

text \<open>
  \<^verbatim>\<open>clients := sockets[socket]\<close> is a reference to the inner map, and no statement of the
  program assigns \<^verbatim>\<open>sockets[socket]\<close> again or deletes it, so the handler's \<^verbatim>\<open>clients\<close> is
  always the current entry of the directory.
\<close>

definition clients_of :: "hub \<Rightarrow> string \<Rightarrow> clients" where
  "clients_of st socket = (case sockets st socket of None \<Rightarrow> [] | Some cl \<Rightarrow> cl)"

definition set_clients :: "string \<Rightarrow> clients \<Rightarrow> hub \<Rightarrow> hub" where
  "set_clients socket cl st = st\<lparr>sockets := (sockets st)(socket \<mapsto> cl)\<rparr>"

definition delete_client :: "string \<Rightarrow> string \<Rightarrow> hub \<Rightarrow> hub" where
  "delete_client socket user st = set_clients socket (AList.delete user (clients_of st socket)) st"

definition Close :: "conn \<Rightarrow> hub \<Rightarrow> hub" where
  "Close c st = st\<lparr>closedConns := c # closedConns st\<rparr>"

text \<open>\<^verbatim>\<open>Connection.Send\<close>: the result is \<open>True\<close> when \<^verbatim>\<open>WriteJSON\<close> returned no error.\<close>

definition Send :: "conn list \<Rightarrow> conn \<Rightarrow> string \<Rightarrow> conn \<Rightarrow> Message \<Rightarrow> hub \<Rightarrow> bool \<times> hub" where
  "Send bad src user client message st =
     (if write_fails st bad client then (False, st)
      else (True, st\<lparr>forwarded := forwarded st @ [(src, user, client, message)]\<rparr>))"

text \<open>The loop of the default case (main.go, lines 80 to 87), over the entries of the room.\<close>

fun relay_loop :: "string \<Rightarrow> conn \<Rightarrow> Message \<Rightarrow> conn list \<Rightarrow> clients \<Rightarrow> hub \<Rightarrow> hub" where
  "relay_loop socket conn message bad [] st = st"
| "relay_loop socket conn message bad ((user, client) # rest) st =
     relay_loop socket conn message bad rest
       (if user \<noteq> UserID message then
          (let (ok, st') = Send bad conn user client message st
           in if ok then st' else delete_client socket user st')
        else st)"

text \<open>The loop of the disconnect case (lines 68 to 76), which also closes a broken peer.\<close>

fun disconnect_loop :: "string \<Rightarrow> conn \<Rightarrow> Message \<Rightarrow> conn list \<Rightarrow> clients \<Rightarrow> hub \<Rightarrow> hub" where
  "disconnect_loop socket conn message bad [] st = st"
| "disconnect_loop socket conn message bad ((user, client) # rest) st =
     disconnect_loop socket conn message bad rest
       (if user \<noteq> UserID message then
          (let (ok, st') = Send bad conn user client message st
           in if ok then st' else delete_client socket user (Close client st'))
        else st)"

text \<open>
  One turn of the handler's loop after \<^verbatim>\<open>ReadJSON\<close> has succeeded (lines 52 to 88);
  \<open>message\<close> is the value of the variable \<^verbatim>\<open>message\<close> after decoding.
\<close>

definition register :: "string \<Rightarrow> conn \<Rightarrow> Message \<Rightarrow> hub \<Rightarrow> hub" where
  "register socket conn message st =
     (if map_of (clients_of st socket) (UserID message) = None
      then set_clients socket (AList.update (UserID message) conn (clients_of st socket)) st
      else st)"

definition dispatch :: "string \<Rightarrow> conn \<Rightarrow> Message \<Rightarrow> conn list \<Rightarrow> hub \<Rightarrow> hub" where
  "dispatch socket conn message bad st =
     (if Type message = ''connect'' then
        (if write_fails st bad conn then delete_client socket (UserID message) st
         else st\<lparr>acked := acked st @ [(conn, message\<lparr>Type := ''session_joined''\<rparr>)]\<rparr>)
      else if Type message = ''disconnect'' then
        delete_client socket (UserID message)
          (disconnect_loop socket conn message bad (clients_of st socket) st)
      else relay_loop socket conn message bad (clients_of st socket) st)"

definition serve :: "string \<Rightarrow> conn \<Rightarrow> Message \<Rightarrow> conn list \<Rightarrow> hub \<Rightarrow> hub" where
  "serve socket conn message bad st = dispatch socket conn message bad (register socket conn message st)"

text \<open>
  The handlers of all connections, interleaved at the grain of one loop turn. \<open>Open c k\<close>
  is a successful upgrade of the new connection \<open>c\<close> requested at \<^verbatim>\<open>/ws/k\<close> (lines 36 to
  40); \<open>Recv c m bad\<close> is a successful read on \<open>c\<close>; \<open>ReadErr c\<close> is a failed read: the
  loop breaks and the deferred \<^verbatim>\<open>conn.Close()\<close> runs.
\<close>

datatype event = Open conn string | Recv conn Message "conn list" | ReadErr conn

definition admit :: "conn \<Rightarrow> string \<Rightarrow> hub \<Rightarrow> hub" where
  "admit c socket st =
     (let st' = (if sockets st socket = None then set_clients socket [] st else st)
      in st'\<lparr>admitted := (admitted st')(c \<mapsto> socket)\<rparr>)"

definition reading :: "hub \<Rightarrow> conn \<Rightarrow> bool" where
  "reading st c = (admitted st c \<noteq> None \<and> c \<notin> set (finished st))"

fun step :: "event \<Rightarrow> hub \<Rightarrow> hub" where
  "step (Open c socket) st = (if admitted st c = None then admit c socket st else st)"
| "step (Recv c message bad) st =
     (case admitted st c of
        None \<Rightarrow> st
      | Some socket \<Rightarrow>
          if c \<in> set (finished st) \<or> c \<in> set (closedConns st) then st
          else serve socket c message bad st)"
| "step (ReadErr c) st =
     (if reading st c then Close c (st\<lparr>finished := c # finished st\<rparr>) else st)"

fun run :: "event list \<Rightarrow> hub \<Rightarrow> hub" where
  "run [] st = st"
| "run (e # es) st = run es (step e st)"

text \<open>
  The set of map keys whose entry the loop of the default or of the disconnect case
  deletes: the entries other than the sender's whose write fails.
\<close>

definition dropped :: "hub \<Rightarrow> conn list \<Rightarrow> Message \<Rightarrow> clients \<Rightarrow> string set" where
  "dropped st bad m es = {u. \<exists>c. (u, c) \<in> set es \<and> u \<noteq> UserID m \<and> write_fails st bad c}"

text \<open>
  Every member of a room entered it through a handler of that room, and every frame was
  forwarded between two connections of one room.
\<close>

definition room_inv :: "hub \<Rightarrow> bool" where
  "room_inv st = (\<forall>k u c. (u, c) \<in> set (clients_of st k) \<longrightarrow> admitted st c = Some k)"

definition log_inv :: "hub \<Rightarrow> bool" where
  "log_inv st = (\<forall>src u dst m. (src, u, dst, m) \<in> set (forwarded st) \<longrightarrow>
     (\<exists>k. admitted st src = Some k \<and> admitted st dst = Some k))"

subsection \<open>The second copy of the handler\<close>

text \<open>
  The repository holds a second \<^verbatim>\<open>main.go\<close> (the one that registers the service with
  Consul) whose \<^verbatim>\<open>wshandler\<close> differs from the first in its two loops: they have no test
  \<^verbatim>\<open>user != message.UserID\<close>.
\<close>

fun relay_loop_consul :: "string \<Rightarrow> conn \<Rightarrow> Message \<Rightarrow> conn list \<Rightarrow> clients \<Rightarrow> hub \<Rightarrow> hub" where
  "relay_loop_consul socket conn message bad [] st = st"
| "relay_loop_consul socket conn message bad ((user, client) # rest) st =
     relay_loop_consul socket conn message bad rest
       (let (ok, st') = Send bad conn user client message st
        in if ok then st' else delete_client socket user st')"

fun disconnect_loop_consul :: "string \<Rightarrow> conn \<Rightarrow> Message \<Rightarrow> conn list \<Rightarrow> clients \<Rightarrow> hub \<Rightarrow> hub" where
  "disconnect_loop_consul socket conn message bad [] st = st"
| "disconnect_loop_consul socket conn message bad ((user, client) # rest) st =
     disconnect_loop_consul socket conn message bad rest
       (let (ok, st') = Send bad conn user client message st
        in if ok then st' else delete_client socket user (Close client st'))"

definition dispatch_consul :: "string \<Rightarrow> conn \<Rightarrow> Message \<Rightarrow> conn list \<Rightarrow> hub \<Rightarrow> hub" where
  "dispatch_consul socket conn message bad st =
     (if Type message = ''connect'' then
        (if write_fails st bad conn then delete_client socket (UserID message) st
         else st\<lparr>acked := acked st @ [(conn, message\<lparr>Type := ''session_joined''\<rparr>)]\<rparr>)
      else if Type message = ''disconnect'' then
        delete_client socket (UserID message)
          (disconnect_loop_consul socket conn message bad (clients_of st socket) st)
      else relay_loop_consul socket conn message bad (clients_of st socket) st)"

definition serve_consul :: "string \<Rightarrow> conn \<Rightarrow> Message \<Rightarrow> conn list \<Rightarrow> hub \<Rightarrow> hub" where
  "serve_consul socket conn message bad st =
     dispatch_consul socket conn message bad (register socket conn message st)"

text \<open>The handlers of the second copy, interleaved as those of the first.\<close>

fun step_consul :: "event \<Rightarrow> hub \<Rightarrow> hub" where
  "step_consul (Open c socket) st = (if admitted st c = None then admit c socket st else st)"
| "step_consul (Recv c message bad) st =
     (case admitted st c of
        None \<Rightarrow> st
      | Some socket \<Rightarrow>
          if c \<in> set (finished st) \<or> c \<in> set (closedConns st) then st
          else serve_consul socket c message bad st)"
| "step_consul (ReadErr c) st =
     (if reading st c then Close c (st\<lparr>finished := c # finished st\<rparr>) else st)"

fun run_consul :: "event list \<Rightarrow> hub \<Rightarrow> hub" where
  "run_consul [] st = st"
| "run_consul (e # es) st = run_consul es (step_consul e st)"

section \<open>The session API (controllers)\<close>

text \<open>
  Modelled from the spec: the declaration of \<^verbatim>\<open>interfaces.Session\<close> is not among the
  sources. The spec's Session has a host, a title and a password hash; the fields bear the
  names under which the controllers and the tests read them.
\<close>

record Session =
  Host :: string
  Title :: string
  Password :: string

text \<open>The struct \<^verbatim>\<open>Socket\<close> of the package \<^verbatim>\<open>interfaces\<close>.\<close>

record Socket =
  SessionID :: string
  HashedURL :: string
  SocketURL :: string

text \<open>
  A \<^verbatim>\<open>primitive.ObjectID\<close> is represented by its canonical form, the 24 lower-case
  hexadecimal digits that \<^verbatim>\<open>Hex()\<close> prints. \<^verbatim>\<open>ObjectIDFromHex\<close> accepts exactly the strings
  of 24 hexadecimal digits of either case.
\<close>

type_synonym ObjectID = string

definition is_hex :: "char \<Rightarrow> bool" where
  "is_hex c = (c \<in> set ''0123456789abcdefABCDEF'')"

definition hex_lower :: "char \<Rightarrow> char" where
  "hex_lower c =
     (if c = CHR ''A'' then CHR ''a'' else if c = CHR ''B'' then CHR ''b''
      else if c = CHR ''C'' then CHR ''c'' else if c = CHR ''D'' then CHR ''d''
      else if c = CHR ''E'' then CHR ''e'' else if c = CHR ''F'' then CHR ''f'' else c)"

definition ObjectIDFromHex :: "string \<Rightarrow> ObjectID option" where
  "ObjectIDFromHex s =
     (if length s = 24 \<and> list_all is_hex s then Some (map hex_lower s) else None)"

definition Hex :: "ObjectID \<Rightarrow> string" where
  "Hex oid = oid"

text \<open>
  The database \<^verbatim>\<open>vidchat\<close>: the collection \<^verbatim>\<open>sessions\<close>, each document under the
  \<^verbatim>\<open>_id\<close> the store assigned, and the collection \<^verbatim>\<open>sockets\<close>, which holds the structs
  that \<^verbatim>\<open>CreateSocket\<close> inserted (no other statement of the program writes to it), both
  in the order of insertion. The store is taken to answer every request.
\<close>

record db =
  sessionsCol :: "(ObjectID \<times> Session) list"
  socketsCol :: "Socket list"

definition empty_db :: db where
  "empty_db = \<lparr>sessionsCol = [], socketsCol = []\<rparr>"

text \<open>
  The document the store keeps for a \<^verbatim>\<open>Socket\<close>. The struct declares no \<^verbatim>\<open>bson\<close> tags,
  so the driver names every element by the lower-cased name of the field; \<^verbatim>\<open>Decode\<close>
  reads the fields back from these elements. (The \<^verbatim>\<open>_id\<close> the store adds to the document
  is left out: no filter and no decoder of the program reads it.)
\<close>

type_synonym bson = "(string \<times> string) list"

definition document :: "Socket \<Rightarrow> bson" where
  "document s =
     [(''sessionid'', SessionID s), (''hashedurl'', HashedURL s), (''socketurl'', SocketURL s)]"

definition element :: "bson \<Rightarrow> string \<Rightarrow> string" where
  "element doc k = (case map_of doc k of None \<Rightarrow> [] | Some v \<Rightarrow> v)"

definition Decode :: "bson \<Rightarrow> Socket" where
  "Decode doc =
     \<lparr>SessionID = element doc ''sessionid'', HashedURL = element doc ''hashedurl'',
      SocketURL = element doc ''socketurl''\<rparr>"

text \<open>
  A filter \<^verbatim>\<open>bson.M{...}\<close> matches a document that holds every element of the filter, under
  the same key (the keys of the store are case-sensitive) and with the same value.
  \<^verbatim>\<open>FindOne\<close> returns the first document of the collection that matches.
\<close>

definition matches :: "bson \<Rightarrow> bson \<Rightarrow> bool" where
  "matches flt doc = list_all (\<lambda>(k, v). map_of doc k = Some v) flt"

definition FindOne :: "('a \<Rightarrow> bool) \<Rightarrow> 'a list \<Rightarrow> 'a option" where
  "FindOne flt docs = find flt docs"

text \<open>
  What a handler has written to its \<^verbatim>\<open>gin.Context\<close>: \<open>None\<close> as long as nothing is
  written. \<^verbatim>\<open>ctx.JSON\<close> sets the status code unless the header is already written, and
  appends the object to the body. A \<^verbatim>\<open>gin.H\<close> is a list of keys with their string values.
\<close>

type_synonym json = "(string \<times> string) list"

record reply =
  code :: nat
  body :: "json list"

definition JSON :: "nat \<Rightarrow> json \<Rightarrow> reply option \<Rightarrow> reply option" where
  "JSON c obj ctx =
     (case ctx of
        None \<Rightarrow> Some \<lparr>code = c, body = [obj]\<rparr>
      | Some r \<Rightarrow> Some (r\<lparr>body := body r @ [obj]\<rparr>))"

definition Status :: "nat \<Rightarrow> reply option \<Rightarrow> reply option" where
  "Status c ctx = (case ctx of None \<Rightarrow> Some \<lparr>code = c, body = []\<rparr> | Some r \<Rightarrow> Some r)"

definition StatusOK :: nat where "StatusOK = 200"

definition StatusBadRequest :: nat where "StatusBadRequest = 400"

definition StatusInternalServerError :: nat where "StatusInternalServerError = 500"

text \<open>
  \<^verbatim>\<open>hashSession\<close>. The digest function of \<^verbatim>\<open>crypto/sha1\<close> is a parameter, \<open>sha1\<close>;
  \<^verbatim>\<open>hex.EncodeToString\<close> prints every byte as two lower-case digits.
\<close>

definition hexdigit :: "nat \<Rightarrow> char" where
  "hexdigit n = ''0123456789abcdef'' ! n"

definition EncodeToString :: "string \<Rightarrow> string" where
  "EncodeToString bs =
     concat (map (\<lambda>b. [hexdigit ((of_char b :: nat) div 16), hexdigit ((of_char b :: nat) mod 16)]) bs)"

definition hashSession :: "(string \<Rightarrow> string) \<Rightarrow> string \<Rightarrow> string" where
  "hashSession sha1 str = EncodeToString (sha1 str)"

definition CreateSocket :: "(string \<Rightarrow> string) \<Rightarrow> Session \<Rightarrow> string \<Rightarrow> db \<Rightarrow> string \<times> db" where
  "CreateSocket sha1 session id' d =
     (let hashURL = hashSession sha1 (Host session @ Title session);
          socketURL = hashSession sha1 (Host session @ Password session);
          socket = \<lparr>SessionID = id', HashedURL = hashURL, SocketURL = socketURL\<rparr>
      in (hashURL, d\<lparr>socketsCol := socketsCol d @ [socket]\<rparr>))"

text \<open>
  \<^verbatim>\<open>CreateSession\<close>. The request body either fails to bind (with the error's text) or
  binds to a \<^verbatim>\<open>Session\<close>. \<^verbatim>\<open>utils.HashPassword\<close> is not among the sources and is the
  parameter \<open>HashPassword\<close>; \<open>oid\<close> is the \<^verbatim>\<open>_id\<close> the store assigns to the new document.
\<close>

definition CreateSession ::
  "(string \<Rightarrow> string) \<Rightarrow> (string \<Rightarrow> string) \<Rightarrow> ObjectID \<Rightarrow> string + Session \<Rightarrow> db \<Rightarrow> reply option \<times> db" where
  "CreateSession sha1 HashPassword oid request d =
     (case request of
        Inl err \<Rightarrow> (JSON StatusBadRequest [(''error'', err)] None, d)
      | Inr bound \<Rightarrow>
          (let session = bound\<lparr>Password := HashPassword (Password bound)\<rparr>;
               d1 = d\<lparr>sessionsCol := sessionsCol d @ [(oid, session)]\<rparr>;
               insertedID = Hex oid;
               (url, d2) = CreateSocket sha1 session insertedID d1
           in (JSON StatusOK [(''socket'', url)] None, d2)))"

text \<open>
  \<^verbatim>\<open>ConnectSession\<close>. \<^verbatim>\<open>utils.ComparePasswords\<close> is not among the sources and is the
  parameter \<open>ComparePasswords\<close>, applied to the stored hash and the supplied password. When
  the socket is not found the handler writes its error and goes on (there is no
  \<^verbatim>\<open>return\<close>) with the zero value of \<^verbatim>\<open>Socket\<close>.
\<close>

definition zero_Socket :: Socket where
  "zero_Socket = \<lparr>SessionID = [], HashedURL = [], SocketURL = []\<rparr>"

definition ConnectSession ::
  "(string \<Rightarrow> string \<Rightarrow> bool) \<Rightarrow> db \<Rightarrow> string \<Rightarrow> string + Session \<Rightarrow> reply option" where
  "ConnectSession ComparePasswords d url request =
     (let result = FindOne (matches [(''hashedUrl'', url)]) (map document (socketsCol d))
      in case request of
           Inl err \<Rightarrow> JSON StatusBadRequest [(''error'', err)] None
         | Inr input \<Rightarrow>
             (let ctx = (if result = None
                         then JSON StatusBadRequest [(''error'', ''Socket connection not found.'')] None
                         else None);
                  socket = (case result of None \<Rightarrow> zero_Socket | Some doc \<Rightarrow> Decode doc)
              in case ObjectIDFromHex (SessionID socket) of
                   None \<Rightarrow> JSON StatusBadRequest [(''error'', ''Session not found.'')] ctx
                 | Some objectID \<Rightarrow>
                     (case FindOne (\<lambda>p. fst p = objectID) (sessionsCol d) of
                        None \<Rightarrow> JSON StatusBadRequest [(''error'', ''Session not found.'')] ctx
                      | Some (_, session) \<Rightarrow>
                          if \<not> ComparePasswords (Password session) (Password input)
                          then JSON StatusBadRequest [(''error'', ''Invalid password.'')] ctx
                          else JSON StatusOK
                                 [(''title'', Title session), (''socket'', SocketURL socket)] ctx)))"

text \<open>
  \<^verbatim>\<open>GetSession\<close>. \<open>query\<close> is the value of \<^verbatim>\<open>ctx.Request.URL.Query()\<close>, a map from a
  parameter's name to its values; indexing a missing key gives the empty slice, and
  \<^verbatim>\<open>[0]\<close> on an empty slice panics.
\<close>

datatype outcome = Panic | Done "reply option"

definition GetSession :: "db \<Rightarrow> (string \<rightharpoonup> string list) \<Rightarrow> outcome" where
  "GetSession d query =
     (case (case query ''url'' of None \<Rightarrow> [] | Some vs \<Rightarrow> vs) of
        [] \<Rightarrow> Panic
      | id' # _ \<Rightarrow>
          (case FindOne (matches [(''hashedUrl'', id')]) (map document (socketsCol d)) of
             None \<Rightarrow> Done (JSON StatusBadRequest [(''error'', ''Socket connection not found.'')] None)
           | Some _ \<Rightarrow> Done (Status StatusOK None)))"

text \<open>
  The route \<^verbatim>\<open>GET /connect\<close> of \<^verbatim>\<open>main\<close>. The router is \<^verbatim>\<open>gin.Default()\<close>, whose
  recovery middleware answers a request whose handler panicked with status 500 and an empty
  body; otherwise the answer is what the handler wrote.
\<close>

definition Recovery :: "outcome \<Rightarrow> reply option" where
  "Recovery out =
     (case out of
        Panic \<Rightarrow> Some \<lparr>code = StatusInternalServerError, body = []\<rparr>
      | Done r \<Rightarrow> r)"

definition GET_connect :: "db \<Rightarrow> (string \<rightharpoonup> string list) \<Rightarrow> reply option" where
  "GET_connect d query = Recovery (GetSession d query)"

text \<open>A sequence of calls of \<^verbatim>\<open>CreateSession\<close>, each with its own inputs.\<close>

record call =
  hasher :: "string \<Rightarrow> string"
  newID :: ObjectID
  request :: "string + Session"

fun creates :: "(string \<Rightarrow> string) \<Rightarrow> call list \<Rightarrow> db \<Rightarrow> db" where
  "creates sha1 [] d = d"
| "creates sha1 (c # cs) d =
     creates sha1 cs (snd (CreateSession sha1 (hasher c) (newID c) (request c) d))"

text \<open>
  The documents one call of \<^verbatim>\<open>CreateSession\<close> inserts: the session with its password
  hashed, and the socket record \<^verbatim>\<open>CreateSocket\<close> derives from it.
\<close>

definition stored :: "call \<Rightarrow> (ObjectID \<times> Session) list" where
  "stored c =
     (case request c of
        Inl err \<Rightarrow> []
      | Inr bound \<Rightarrow> [(newID c, bound\<lparr>Password := hasher c (Password bound)\<rparr>)])"

definition socket_of :: "(string \<Rightarrow> string) \<Rightarrow> ObjectID \<times> Session \<Rightarrow> Socket" where
  "socket_of sha1 p =
     \<lparr>SessionID = Hex (fst p),
      HashedURL = hashSession sha1 (Host (snd p) @ Title (snd p)),
      SocketURL = hashSession sha1 (Host (snd p) @ Password (snd p))\<rparr>"

section \<open>Sample inputs\<close>

text \<open>Messages and event sequences at which the theorems below are evaluated.\<close>

definition connect_of :: "string \<Rightarrow> Message" where
  "connect_of u = \<lparr>Type = ''connect'', UserID = u, Description = [], Candidate = [], To = []\<rparr>"

definition disconnect_of :: "string \<Rightarrow> Message" where
  "disconnect_of u = \<lparr>Type = ''disconnect'', UserID = u, Description = [], Candidate = [], To = []\<rparr>"

definition offer_of :: "string \<Rightarrow> string \<Rightarrow> Message" where
  "offer_of u t = \<lparr>Type = ''offer'', UserID = u, Description = ''X'', Candidate = [], To = t\<rparr>"

definition three_joined :: "event list" where
  "three_joined = [Open 1 ''r'', Open 2 ''r'', Open 3 ''r'', Recv 1 (connect_of ''a'') [],
     Recv 2 (connect_of ''b'') [], Recv 3 (connect_of ''c'') []]"

definition two_rooms :: "event list" where
  "two_rooms = [Open 1 ''roomA'', Open 2 ''roomB'', Open 3 ''roomA'',
     Recv 2 (connect_of ''b'') [], Recv 3 (connect_of ''c'') [], Recv 1 (offer_of ''a'' []) []]"

text \<open>
  A comparison and a digest that stand for \<^verbatim>\<open>utils.ComparePasswords\<close> and
  \<^verbatim>\<open>crypto/sha1\<close> at the sample inputs, request bodies, and calls of \<^verbatim>\<open>CreateSession\<close>;
  the first is the spec's scenario (host h1, title Standup, password p1).
\<close>

definition toy_compare :: "string \<Rightarrow> string \<Rightarrow> bool" where
  "toy_compare hashed plain = (hashed = ''hash('' @ plain @ '')'')"

definition join_with :: "string \<Rightarrow> string + Session" where
  "join_with p = Inr \<lparr>Host = [], Title = [], Password = p\<rparr>"

definition toy_digest :: "string \<Rightarrow> string" where
  "toy_digest str = str"

definition create_of :: "string \<Rightarrow> string \<Rightarrow> string \<Rightarrow> string \<Rightarrow> call" where
  "create_of i h t p =
     \<lparr>hasher = (\<lambda>x. ''hash('' @ x @ '')''), newID = i,
      request = Inr \<lparr>Host = h, Title = t, Password = p\<rparr>\<rparr>"

definition one_standup :: "call list" where
  "one_standup = [create_of ''0123456789abcdef01234567'' ''h1'' ''Standup'' ''p1'']"

definition two_standups :: "call list" where
  "two_standups = [create_of ''0123456789abcdef01234567'' ''h1'' ''Standup'' ''p1'',
                   create_of ''0123456789abcdef01234568'' ''h1'' ''Standup'' ''p2'']"

definition two_titles :: "call list" where
  "two_titles = [create_of ''0123456789abcdef01234567'' ''h1'' ''Standup'' ''p1'',
                 create_of ''0123456789abcdef01234568'' ''h1'' ''Retro'' ''p1'']"

section \<open>Properties of the relay hub\<close>

subsection \<open>The primitives and the two loops\<close>

lemma set_clients_fields [simp]:
  "sockets (set_clients k cl st) = (sockets st)(k \<mapsto> cl)"
  "admitted (set_clients k cl st) = admitted st"
  "finished (set_clients k cl st) = finished st"
  "closedConns (set_clients k cl st) = closedConns st"
  "acked (set_clients k cl st) = acked st"
  "forwarded (set_clients k cl st) = forwarded st"
  by (simp_all add: set_clients_def)

lemma clients_of_set_clients [simp]:
  "clients_of (set_clients k cl st) k' = (if k' = k then cl else clients_of st k')"
  by (simp add: clients_of_def)

lemma delete_client_fields [simp]:
  "admitted (delete_client k u st) = admitted st"
  "finished (delete_client k u st) = finished st"
  "closedConns (delete_client k u st) = closedConns st"
  "acked (delete_client k u st) = acked st"
  "forwarded (delete_client k u st) = forwarded st"
  by (simp_all add: delete_client_def)

lemma clients_of_delete_client [simp]:
  "clients_of (delete_client k u st) k' =
     (if k' = k then AList.delete u (clients_of st k) else clients_of st k')"
  by (simp add: delete_client_def)

lemma Close_fields [simp]:
  "sockets (Close c st) = sockets st"
  "admitted (Close c st) = admitted st"
  "finished (Close c st) = finished st"
  "closedConns (Close c st) = c # closedConns st"
  "acked (Close c st) = acked st"
  "forwarded (Close c st) = forwarded st"
  by (simp_all add: Close_def)

lemma clients_of_Close [simp]: "clients_of (Close c st) k = clients_of st k"
  by (simp add: clients_of_def)

lemma clients_of_forwarded_update [simp]:
  "clients_of (st\<lparr>forwarded := f\<rparr>) k = clients_of st k"
  by (simp add: clients_of_def)

lemma write_fails_closed_eq:
  "set (closedConns st') = set (closedConns st) \<Longrightarrow> write_fails st' bad c = write_fails st bad c"
  by (simp add: write_fails_def)

lemma write_fails_simps [simp]:
  "write_fails (set_clients k cl st) bad c = write_fails st bad c"
  "write_fails (delete_client k u st) bad c = write_fails st bad c"
  "write_fails (st\<lparr>forwarded := f\<rparr>) bad c = write_fails st bad c"
  by (simp_all add: write_fails_def)

lemma write_fails_Close:
  "write_fails st bad d \<Longrightarrow> write_fails (Close d st) bad c = write_fails st bad c"
  by (auto simp: write_fails_def)

lemma relay_loop_forwarded:
  "forwarded (relay_loop socket conn m bad es st) =
     forwarded st @ map (\<lambda>(u, c). (conn, u, c, m))
       (filter (\<lambda>(u, c). u \<noteq> UserID m \<and> \<not> write_fails st bad c) es)"
proof (induction es arbitrary: st)
  case Nil
  then show ?case by simp
next
  case (Cons e es)
  obtain u c where e: "e = (u, c)" by (cases e)
  show ?case
    by (simp add: e Cons.IH Send_def)
qed

lemma disconnect_loop_forwarded:
  "forwarded (disconnect_loop socket conn m bad es st) =
     forwarded st @ map (\<lambda>(u, c). (conn, u, c, m))
       (filter (\<lambda>(u, c). u \<noteq> UserID m \<and> \<not> write_fails st bad c) es)"
proof (induction es arbitrary: st)
  case Nil
  then show ?case by simp
next
  case (Cons e es)
  obtain u c where e: "e = (u, c)" by (cases e)
  show ?case
    by (simp add: e Cons.IH Send_def write_fails_Close)
qed


lemma relay_loop_untouched:
  "admitted (relay_loop socket conn m bad es st) = admitted st \<and>
   finished (relay_loop socket conn m bad es st) = finished st \<and>
   closedConns (relay_loop socket conn m bad es st) = closedConns st \<and>
   acked (relay_loop socket conn m bad es st) = acked st"
proof (induction es arbitrary: st)
  case Nil
  then show ?case by simp
next
  case (Cons e es)
  obtain u c where e: "e = (u, c)" by (cases e)
  show ?case by (simp add: e Cons.IH Send_def)
qed

lemmas relay_loop_fields [simp] =
  relay_loop_untouched [THEN conjunct1]
  relay_loop_untouched [THEN conjunct2, THEN conjunct1]
  relay_loop_untouched [THEN conjunct2, THEN conjunct2, THEN conjunct1]
  relay_loop_untouched [THEN conjunct2, THEN conjunct2, THEN conjunct2]

lemma disconnect_loop_untouched:
  "admitted (disconnect_loop socket conn m bad es st) = admitted st \<and>
   finished (disconnect_loop socket conn m bad es st) = finished st \<and>
   acked (disconnect_loop socket conn m bad es st) = acked st"
proof (induction es arbitrary: st)
  case Nil
  then show ?case by simp
next
  case (Cons e es)
  obtain u c where e: "e = (u, c)" by (cases e)
  show ?case by (simp add: e Cons.IH Send_def)
qed

lemmas disconnect_loop_fields [simp] =
  disconnect_loop_untouched [THEN conjunct1]
  disconnect_loop_untouched [THEN conjunct2, THEN conjunct1]
  disconnect_loop_untouched [THEN conjunct2, THEN conjunct2]

lemma disconnect_loop_write_fails [simp]:
  "write_fails (disconnect_loop socket conn m bad es st) bad c = write_fails st bad c"
proof (induction es arbitrary: st)
  case Nil
  then show ?case by simp
next
  case (Cons e es)
  obtain u d where e: "e = (u, d)" by (cases e)
  show ?case by (simp add: e Cons.IH Send_def write_fails_Close)
qed

lemma dropped_Nil [simp]: "dropped st bad m [] = {}"
  by (simp add: dropped_def)

lemma dropped_Cons:
  "dropped st bad m ((u, c) # es) =
     (if u \<noteq> UserID m \<and> write_fails st bad c then insert u (dropped st bad m es)
      else dropped st bad m es)"
  by (auto simp: dropped_def)

lemma dropped_cong:
  "(\<And>c. write_fails st' bad c = write_fails st bad c) \<Longrightarrow> dropped st' bad m es = dropped st bad m es"
  by (simp add: dropped_def)

lemma delete_filter: "AList.delete u cl = filter (\<lambda>(k, _). k \<noteq> u) cl"
  by (auto simp: AList.delete_eq intro: filter_cong)

lemma relay_loop_clients:
  "clients_of (relay_loop socket conn m bad es st) k =
     (if k = socket then filter (\<lambda>(u, _). u \<notin> dropped st bad m es) (clients_of st socket)
      else clients_of st k)"
proof (induction es arbitrary: st)
  case Nil
  then show ?case by simp
next
  case (Cons e es)
  obtain u c where e: "e = (u, c)" by (cases e)
  have d1: "dropped (delete_client socket u st) bad m es = dropped st bad m es"
    by (rule dropped_cong) simp
  have d2: "\<And>f. dropped (st\<lparr>forwarded := f\<rparr>) bad m es = dropped st bad m es"
    by (rule dropped_cong) simp
  show ?case
    by (auto simp: e Cons.IH Send_def dropped_Cons d1 d2 delete_filter intro!: filter_cong)
qed

lemma disconnect_loop_clients:
  "clients_of (disconnect_loop socket conn m bad es st) k =
     (if k = socket then filter (\<lambda>(u, _). u \<notin> dropped st bad m es) (clients_of st socket)
      else clients_of st k)"
proof (induction es arbitrary: st)
  case Nil
  then show ?case by simp
next
  case (Cons e es)
  obtain u c where e: "e = (u, c)" by (cases e)
  have d1: "write_fails st bad c \<Longrightarrow>
      dropped (delete_client socket u (Close c st)) bad m es = dropped st bad m es"
    by (rule dropped_cong) (simp add: write_fails_Close)
  have d2: "\<And>f. dropped (st\<lparr>forwarded := f\<rparr>) bad m es = dropped st bad m es"
    by (rule dropped_cong) simp
  show ?case
    by (auto simp: e Cons.IH Send_def dropped_Cons d1 d2 delete_filter intro!: filter_cong)
qed

lemma delete_client_dom: "dom (sockets (delete_client k' u st)) = insert k' (dom (sockets st))"
  by (simp add: delete_client_def)

lemma relay_loop_dom: "dom (sockets st) \<subseteq> dom (sockets (relay_loop socket conn m bad es st))"
proof (induction es arbitrary: st)
  case Nil
  then show ?case by simp
next
  case (Cons e es)
  obtain u c where e: "e = (u, c)" by (cases e)
  let ?st' = "if u \<noteq> UserID m then
      (let (ok, st') = Send bad conn u c m st in if ok then st' else delete_client socket u st')
      else st"
  have "dom (sockets st) \<subseteq> dom (sockets ?st')"
    by (auto simp: Send_def delete_client_dom)
  also have "\<dots> \<subseteq> dom (sockets (relay_loop socket conn m bad es ?st'))"
    by (rule Cons.IH)
  finally show ?case by (simp add: e)
qed

lemma disconnect_loop_dom:
  "dom (sockets st) \<subseteq> dom (sockets (disconnect_loop socket conn m bad es st))"
proof (induction es arbitrary: st)
  case Nil
  then show ?case by simp
next
  case (Cons e es)
  obtain u c where e: "e = (u, c)" by (cases e)
  let ?st' = "if u \<noteq> UserID m then
      (let (ok, st') = Send bad conn u c m st in if ok then st' else delete_client socket u (Close c st'))
      else st"
  have "dom (sockets st) \<subseteq> dom (sockets ?st')"
    by (auto simp: Send_def delete_client_dom)
  also have "\<dots> \<subseteq> dom (sockets (disconnect_loop socket conn m bad es ?st'))"
    by (rule Cons.IH)
  finally show ?case by (simp add: e)
qed


subsection \<open>One turn of the handler\<close>


lemma update_absent: "map_of al k = None \<Longrightarrow> AList.update k v al = al @ [(k, v)]"
  by (induction al) auto

lemma clients_of_acked_update [simp]:
  "clients_of (st\<lparr>acked := a\<rparr>) k = clients_of st k"
  by (simp add: clients_of_def)

lemma register_untouched [simp]:
  "admitted (register socket conn m st) = admitted st"
  "finished (register socket conn m st) = finished st"
  "closedConns (register socket conn m st) = closedConns st"
  "acked (register socket conn m st) = acked st"
  "forwarded (register socket conn m st) = forwarded st"
  by (simp_all add: register_def)

lemma write_fails_register [simp]:
  "write_fails (register socket conn m st) bad c = write_fails st bad c"
  by (simp add: write_fails_def)

lemma clients_of_register:
  "clients_of (register socket conn m st) k =
     (if k = socket \<and> map_of (clients_of st socket) (UserID m) = None
      then clients_of st socket @ [(UserID m, conn)] else clients_of st k)"
  by (simp add: register_def update_absent)

lemma register_dom: "dom (sockets st) \<subseteq> dom (sockets (register socket conn m st))"
  by (auto simp: register_def)

lemma serve_forwarded:
  "forwarded (serve socket conn m bad st) =
     (if Type m = ''connect'' then forwarded st
      else forwarded st @ map (\<lambda>(u, c). (conn, u, c, m))
        (filter (\<lambda>(u, c). u \<noteq> UserID m \<and> \<not> write_fails st bad c)
           (clients_of (register socket conn m st) socket)))"
  by (simp add: serve_def dispatch_def relay_loop_forwarded disconnect_loop_forwarded)

lemma serve_untouched [simp]:
  "admitted (serve socket conn m bad st) = admitted st"
  "finished (serve socket conn m bad st) = finished st"
  by (simp_all add: serve_def dispatch_def)

lemma set_delete_subset: "set (AList.delete u cl) \<subseteq> set cl"
  by (auto simp: delete_filter)

lemma serve_clients_subset:
  "set (clients_of (serve socket conn m bad st) k) \<subseteq> set (clients_of (register socket conn m st) k)"
  using set_delete_subset
  by (auto simp: serve_def dispatch_def relay_loop_clients disconnect_loop_clients delete_filter)

lemma serve_dom: "dom (sockets st) \<subseteq> dom (sockets (serve socket conn m bad st))"
proof -
  let ?r = "register socket conn m st"
  have "dom (sockets ?r) \<subseteq> dom (sockets (dispatch socket conn m bad ?r))"
    using relay_loop_dom [of ?r socket conn m bad "clients_of ?r socket"]
      disconnect_loop_dom [of ?r socket conn m bad "clients_of ?r socket"]
    by (auto simp: dispatch_def delete_client_dom)
  with register_dom [of st socket conn m] show ?thesis
    by (auto simp: serve_def)
qed

lemma serve_drops_broken:
  assumes "(u, c) \<in> set (clients_of st socket)" "u \<noteq> UserID m" "write_fails st bad c"
    "Type m \<noteq> ''connect''"
  shows "u \<notin> fst ` set (clients_of (serve socket conn m bad st) socket)"
proof -
  let ?r = "register socket conn m st"
  have "(u, c) \<in> set (clients_of ?r socket)"
    using assms(1) by (simp add: clients_of_register)
  then have "u \<in> dropped ?r bad m (clients_of ?r socket)"
    using assms(2,3) by (auto simp: dropped_def)
  then show ?thesis
    using assms(4)
    by (auto simp: serve_def dispatch_def relay_loop_clients disconnect_loop_clients delete_filter)
qed


subsection \<open>Interleaved handlers\<close>


lemma clients_of_admit [simp]: "clients_of (admit c k st) k' = clients_of st k'"
  by (auto simp: admit_def clients_of_def set_clients_def Let_def)

lemma admit_untouched [simp]:
  "admitted (admit c k st) = (admitted st)(c \<mapsto> k)"
  "finished (admit c k st) = finished st"
  "closedConns (admit c k st) = closedConns st"
  "acked (admit c k st) = acked st"
  "forwarded (admit c k st) = forwarded st"
  by (simp_all add: admit_def Let_def)

lemma admit_dom: "dom (sockets (admit c k st)) = insert k (dom (sockets st))"
  by (auto simp: admit_def Let_def)

lemma clients_of_finished_update [simp]:
  "clients_of (st\<lparr>finished := f\<rparr>) k = clients_of st k"
  by (simp add: clients_of_def)

lemma step_dom: "dom (sockets st) \<subseteq> dom (sockets (step e st))"
proof (cases e)
  case (Open c k)
  then show ?thesis by (auto simp: admit_dom)
next
  case (Recv c m bad)
  then show ?thesis
    using serve_dom by (auto split: option.splits)
next
  case (ReadErr c)
  then show ?thesis by simp
qed

lemma run_dom: "dom (sockets st) \<subseteq> dom (sockets (run evs st))"
proof (induction evs arbitrary: st)
  case Nil
  then show ?case by simp
next
  case (Cons e evs)
  have "dom (sockets st) \<subseteq> dom (sockets (step e st))" by (rule step_dom)
  also have "\<dots> \<subseteq> dom (sockets (run evs (step e st)))" by (rule Cons.IH)
  finally show ?case by simp
qed

lemma step_admitted_stable: "admitted st c = Some k \<Longrightarrow> admitted (step e st) c = Some k"
  by (cases e) (auto split: option.splits)

lemma run_admitted_stable: "admitted st c = Some k \<Longrightarrow> admitted (run evs st) c = Some k"
  by (induction evs arbitrary: st) (simp_all add: step_admitted_stable)

lemma room_inv_step:
  assumes "room_inv st"
  shows "room_inv (step e st)"
proof (cases e)
  case (Open c k)
  show ?thesis
  proof (cases "admitted st c = None")
    case True
    with assms Open show ?thesis
      by (auto simp: room_inv_def)
  next
    case False
    with assms Open show ?thesis by auto
  qed
next
  case (Recv c m bad)
  show ?thesis
  proof (cases "admitted st c")
    case None
    with assms Recv show ?thesis by simp
  next
    case (Some socket)
    have "room_inv (serve socket c m bad st)"
      unfolding room_inv_def
    proof (intro allI impI)
      fix k u d
      assume "(u, d) \<in> set (clients_of (serve socket c m bad st) k)"
      then have "(u, d) \<in> set (clients_of (register socket c m st) k)"
        using serve_clients_subset by blast
      then have "(u, d) \<in> set (clients_of st k) \<or> (k = socket \<and> d = c)"
        by (auto simp: clients_of_register split: if_splits)
      then show "admitted (serve socket c m bad st) d = Some k"
        using assms Some by (auto simp: room_inv_def)
    qed
    with assms Recv Some show ?thesis by simp
  qed
next
  case (ReadErr c)
  with assms show ?thesis by (simp add: room_inv_def)
qed

lemma log_inv_step:
  assumes "room_inv st" "log_inv st"
  shows "log_inv (step e st)"
proof (cases e)
  case (Open c k)
  show ?thesis
  proof (cases "admitted st c = None")
    case True
    with assms(2) Open show ?thesis
      by (fastforce simp: log_inv_def)
  next
    case False
    with assms Open show ?thesis by auto
  qed
next
  case (Recv c m bad)
  show ?thesis
  proof (cases "admitted st c")
    case None
    with assms Recv show ?thesis by simp
  next
    case (Some socket)
    have "log_inv (serve socket c m bad st)"
      unfolding log_inv_def
    proof (intro allI impI)
      fix src u dst m'
      assume "(src, u, dst, m') \<in> set (forwarded (serve socket c m bad st))"
      then consider "(src, u, dst, m') \<in> set (forwarded st)"
        | "src = c" "(u, dst) \<in> set (clients_of (register socket c m st) socket)"
        by (auto simp: serve_forwarded split: if_splits)
      then show "\<exists>k. admitted (serve socket c m bad st) src = Some k \<and>
          admitted (serve socket c m bad st) dst = Some k"
      proof cases
        case 1
        with assms(2) show ?thesis unfolding log_inv_def by simp blast
      next
        case 2
        then have "(u, dst) \<in> set (clients_of st socket) \<or> dst = c"
          by (auto simp: clients_of_register split: if_splits)
        with assms(1) Some 2(1) show ?thesis by (auto simp: room_inv_def)
      qed
    qed
    with assms Recv Some show ?thesis by simp
  qed
next
  case (ReadErr c)
  with assms(2) show ?thesis by (simp add: log_inv_def)
qed

lemma run_invs: "room_inv st \<Longrightarrow> log_inv st \<Longrightarrow> room_inv (run evs st) \<and> log_inv (run evs st)"
  by (induction evs arbitrary: st) (simp_all add: room_inv_step log_inv_step)

lemma init_invs: "room_inv init_hub \<and> log_inv init_hub"
  by (simp add: room_inv_def log_inv_def init_hub_def clients_of_def)


subsection \<open>The second copy keeps rooms apart as well\<close>

lemma relay_loop_consul_forwarded:
  "forwarded (relay_loop_consul socket conn m bad es st) =
     forwarded st @ map (\<lambda>(u, c). (conn, u, c, m)) (filter (\<lambda>(u, c). \<not> write_fails st bad c) es)"
proof (induction es arbitrary: st)
  case Nil
  then show ?case by simp
next
  case (Cons e es)
  obtain u c where e: "e = (u, c)" by (cases e)
  show ?case by (simp add: e Cons.IH Send_def)
qed

lemma disconnect_loop_consul_forwarded:
  "forwarded (disconnect_loop_consul socket conn m bad es st) =
     forwarded st @ map (\<lambda>(u, c). (conn, u, c, m)) (filter (\<lambda>(u, c). \<not> write_fails st bad c) es)"
proof (induction es arbitrary: st)
  case Nil
  then show ?case by simp
next
  case (Cons e es)
  obtain u c where e: "e = (u, c)" by (cases e)
  show ?case by (simp add: e Cons.IH Send_def write_fails_Close)
qed

lemma relay_loop_consul_admitted [simp]:
  "admitted (relay_loop_consul socket conn m bad es st) = admitted st"
proof (induction es arbitrary: st)
  case Nil
  then show ?case by simp
next
  case (Cons e es)
  obtain u c where e: "e = (u, c)" by (cases e)
  show ?case by (simp add: e Cons.IH Send_def)
qed

lemma disconnect_loop_consul_admitted [simp]:
  "admitted (disconnect_loop_consul socket conn m bad es st) = admitted st"
proof (induction es arbitrary: st)
  case Nil
  then show ?case by simp
next
  case (Cons e es)
  obtain u c where e: "e = (u, c)" by (cases e)
  show ?case by (simp add: e Cons.IH Send_def)
qed

lemma delete_client_clients_subset:
  "set (clients_of (delete_client socket u st) k) \<subseteq> set (clients_of st k)"
  by (auto simp: delete_filter)

lemma relay_loop_consul_clients_subset:
  "set (clients_of (relay_loop_consul socket conn m bad es st) k) \<subseteq> set (clients_of st k)"
proof (induction es arbitrary: st)
  case Nil
  then show ?case by simp
next
  case (Cons e es)
  obtain u c where e: "e = (u, c)" by (cases e)
  let ?st' = "let (ok, st') = Send bad conn u c m st in if ok then st' else delete_client socket u st'"
  have "set (clients_of ?st' k) \<subseteq> set (clients_of st k)"
    by (auto simp: Send_def delete_filter)
  with Cons.IH [of ?st'] show ?case by (simp add: e)
qed

lemma disconnect_loop_consul_clients_subset:
  "set (clients_of (disconnect_loop_consul socket conn m bad es st) k) \<subseteq> set (clients_of st k)"
proof (induction es arbitrary: st)
  case Nil
  then show ?case by simp
next
  case (Cons e es)
  obtain u c where e: "e = (u, c)" by (cases e)
  let ?st' = "let (ok, st') = Send bad conn u c m st
              in if ok then st' else delete_client socket u (Close c st')"
  have "set (clients_of ?st' k) \<subseteq> set (clients_of st k)"
    by (auto simp: Send_def delete_filter)
  with Cons.IH [of ?st'] show ?case by (simp add: e)
qed

lemma serve_consul_admitted [simp]: "admitted (serve_consul socket conn m bad st) = admitted st"
  by (simp add: serve_consul_def dispatch_consul_def)

lemma serve_consul_forwarded:
  "forwarded (serve_consul socket conn m bad st) =
     (if Type m = ''connect'' then forwarded st
      else forwarded st @ map (\<lambda>(u, c). (conn, u, c, m))
        (filter (\<lambda>(u, c). \<not> write_fails st bad c) (clients_of (register socket conn m st) socket)))"
  by (simp add: serve_consul_def dispatch_consul_def relay_loop_consul_forwarded
      disconnect_loop_consul_forwarded)

lemma serve_consul_clients_subset:
  "set (clients_of (serve_consul socket conn m bad st) k) \<subseteq> set (clients_of (register socket conn m st) k)"
proof -
  let ?r = "register socket conn m st"
  have "set (clients_of (dispatch_consul socket conn m bad ?r) k) \<subseteq> set (clients_of ?r k)"
  proof (cases "Type m = ''connect''")
    case True
    then show ?thesis by (auto simp: dispatch_consul_def delete_filter)
  next
    case False
    note not_connect = this
    show ?thesis
    proof (cases "Type m = ''disconnect''")
      case True
      let ?l = "disconnect_loop_consul socket conn m bad (clients_of ?r socket) ?r"
      have "set (clients_of (delete_client socket (UserID m) ?l) k) \<subseteq> set (clients_of ?l k)"
        by (rule delete_client_clients_subset)
      also have "\<dots> \<subseteq> set (clients_of ?r k)"
        by (rule disconnect_loop_consul_clients_subset)
      finally show ?thesis using True by (simp add: dispatch_consul_def)
    next
      case False
      with not_connect show ?thesis
        by (simp add: dispatch_consul_def relay_loop_consul_clients_subset)
    qed
  qed
  then show ?thesis by (simp add: serve_consul_def)
qed

lemma invs_handler_turn:
  assumes "room_inv st" "log_inv st" "admitted st c = Some socket"
    and adm: "admitted st' = admitted st"
    and sub: "\<And>k. set (clients_of st' k) \<subseteq> set (clients_of (register socket c m st) k)"
    and fwd: "set (forwarded st') \<subseteq> set (forwarded st) \<union>
        {(c, u, d, m) | u d. (u, d) \<in> set (clients_of (register socket c m st) socket)}"
  shows "room_inv st' \<and> log_inv st'"
proof
  have reg: "(u, d) \<in> set (clients_of st k) \<or> (k = socket \<and> d = c)"
    if "(u, d) \<in> set (clients_of (register socket c m st) k)" for u d k
    using that by (auto simp: clients_of_register split: if_splits)
  show "room_inv st'"
    unfolding room_inv_def
  proof (intro allI impI)
    fix k u d
    assume "(u, d) \<in> set (clients_of st' k)"
    then have "(u, d) \<in> set (clients_of (register socket c m st) k)"
      using sub by blast
    from reg [OF this] show "admitted st' d = Some k"
      using assms(1,3) adm by (auto simp: room_inv_def)
  qed
  show "log_inv st'"
    unfolding log_inv_def
  proof (intro allI impI)
    fix src u dst m'
    assume "(src, u, dst, m') \<in> set (forwarded st')"
    then consider "(src, u, dst, m') \<in> set (forwarded st)"
      | "src = c" "(u, dst) \<in> set (clients_of (register socket c m st) socket)"
      using fwd by auto
    then show "\<exists>k. admitted st' src = Some k \<and> admitted st' dst = Some k"
    proof cases
      case 1
      with assms(2) show ?thesis unfolding log_inv_def adm by blast
    next
      case 2
      from reg [OF 2(2)] assms(1,3) 2(1) show ?thesis
        unfolding adm by (auto simp: room_inv_def)
    qed
  qed
qed

lemma invs_other_turn:
  assumes "room_inv st" "log_inv st"
  shows "room_inv (if admitted st c = None then admit c k st else st) \<and>
         log_inv (if admitted st c = None then admit c k st else st)"
    and "room_inv (if reading st c then Close c (st\<lparr>finished := c # finished st\<rparr>) else st) \<and>
         log_inv (if reading st c then Close c (st\<lparr>finished := c # finished st\<rparr>) else st)"
proof -
  show "room_inv (if admitted st c = None then admit c k st else st) \<and>
         log_inv (if admitted st c = None then admit c k st else st)"
  proof (cases "admitted st c = None")
    case True
    have "room_inv (admit c k st)"
      using assms(1) True by (auto simp: room_inv_def)
    moreover have "log_inv (admit c k st)"
      using assms(2) True by (fastforce simp: log_inv_def)
    ultimately show ?thesis using True by simp
  next
    case False
    with assms show ?thesis by auto
  qed
  show "room_inv (if reading st c then Close c (st\<lparr>finished := c # finished st\<rparr>) else st) \<and>
         log_inv (if reading st c then Close c (st\<lparr>finished := c # finished st\<rparr>) else st)"
    using assms by (simp add: room_inv_def log_inv_def)
qed

lemma invs_step_consul:
  assumes "room_inv st" "log_inv st"
  shows "room_inv (step_consul e st) \<and> log_inv (step_consul e st)"
proof (cases e)
  case (Open c k)
  with invs_other_turn(1) [OF assms] show ?thesis by simp
next
  case (Recv c m bad)
  show ?thesis
  proof (cases "admitted st c")
    case None
    with assms Recv show ?thesis by simp
  next
    case (Some socket)
    have "room_inv (serve_consul socket c m bad st) \<and> log_inv (serve_consul socket c m bad st)"
      using assms Some
    proof (rule invs_handler_turn)
      show "admitted (serve_consul socket c m bad st) = admitted st" by simp
      show "set (clients_of (serve_consul socket c m bad st) k)
          \<subseteq> set (clients_of (register socket c m st) k)" for k
        by (rule serve_consul_clients_subset)
      show "set (forwarded (serve_consul socket c m bad st)) \<subseteq> set (forwarded st) \<union>
          {(c, u, d, m) | u d. (u, d) \<in> set (clients_of (register socket c m st) socket)}"
        by (auto simp: serve_consul_forwarded)
    qed
    with assms Recv Some show ?thesis by simp
  qed
next
  case (ReadErr c)
  with invs_other_turn(2) [OF assms] show ?thesis by simp
qed

lemma run_consul_invs:
  "room_inv st \<Longrightarrow> log_inv st \<Longrightarrow> room_inv (run_consul evs st) \<and> log_inv (run_consul evs st)"
  by (induction evs arbitrary: st) (simp_all add: invs_step_consul)

lemma consul_copy_room_isolation:
  assumes "admitted (run_consul evs init_hub) src = Some A"
    "admitted (run_consul evs init_hub) dst = Some B" "A \<noteq> B"
  shows "(src, u, dst, m) \<notin> set (forwarded (run_consul evs init_hub))"
proof
  assume "(src, u, dst, m) \<in> set (forwarded (run_consul evs init_hub))"
  moreover have "log_inv (run_consul evs init_hub)"
    using run_consul_invs init_invs by blast
  ultimately obtain k where "admitted (run_consul evs init_hub) src = Some k"
    "admitted (run_consul evs init_hub) dst = Some k"
    unfolding log_inv_def by blast
  with assms show False by simp
qed

subsection \<open>Evaluation at the sample inputs\<close>

lemmas hub_eval = init_hub_def admit_def set_clients_def clients_of_def delete_client_def
  Close_def Send_def write_fails_def register_def dispatch_def serve_def reading_def
  connect_of_def disconnect_of_def offer_of_def Let_def

lemma three_joined_state:
  "run three_joined init_hub =
     \<lparr>sockets = [''r'' \<mapsto> [(''a'', 1), (''b'', 2), (''c'', 3)]],
      admitted = [1 \<mapsto> ''r'', 2 \<mapsto> ''r'', 3 \<mapsto> ''r''],
      finished = [], closedConns = [],
      acked = [(1, (connect_of ''a'')\<lparr>Type := ''session_joined''\<rparr>),
               (2, (connect_of ''b'')\<lparr>Type := ''session_joined''\<rparr>),
               (3, (connect_of ''c'')\<lparr>Type := ''session_joined''\<rparr>)],
      forwarded = []\<rparr>"
  by (simp add: three_joined_def hub_eval fun_upd_twist)

section \<open>The claims about the relay hub\<close>

text \<open>
  C1 (targeted delivery), as stated, fails. Three participants a, b and c have joined room
  r on the connections 1, 2 and 3; a sends an offer with the recipient field \<open>To = b\<close>.
  The frame is also written to c.
\<close>

theorem C1_targeted_counterexample:
  "(1, ''c'', 3, offer_of ''a'' ''b'')
     \<in> set (forwarded (run (three_joined @ [Recv 1 (offer_of ''a'' ''b'') []]) init_hub))"
  by (simp add: three_joined_def hub_eval)

text \<open>
  C1, amended: for a message whose type is neither connect nor disconnect the handler does
  not read the recipient field. Whatever value \<open>x\<close> the field \<open>To\<close> holds, the frames
  written are one copy of the message for every entry of the room (after the sender's own
  registration) whose key differs from the message's \<open>UserID\<close> and whose connection
  accepts the write, in the order of the iteration.
\<close>

theorem C1_relay_ignores_recipient_field:
  assumes "Type m \<noteq> ''connect''" "Type m \<noteq> ''disconnect''"
  shows "forwarded (serve socket conn (m\<lparr>To := x\<rparr>) bad st) =
     forwarded st @ map (\<lambda>(u, c). (conn, u, c, m\<lparr>To := x\<rparr>))
       (filter (\<lambda>(u, c). u \<noteq> UserID m \<and> \<not> write_fails st bad c)
          (clients_of (register socket conn m st) socket))"
proof -
  have "register socket conn (m\<lparr>To := x\<rparr>) st = register socket conn m st"
    by (simp add: register_def)
  with assms show ?thesis by (simp add: serve_forwarded)
qed

theorem C1_relay_ignores_recipient_field_witness:
  "Type (offer_of ''a'' []) \<noteq> ''connect'' \<and> Type (offer_of ''a'' []) \<noteq> ''disconnect'' \<and>
   forwarded (serve ''r'' 1 (offer_of ''a'' ''b'') [] (run three_joined init_hub)) =
     [(1, ''b'', 2, offer_of ''a'' ''b''), (1, ''c'', 3, offer_of ''a'' ''b'')]"
proof -
  have t: "Type (offer_of ''a'' []) \<noteq> ''connect''" "Type (offer_of ''a'' []) \<noteq> ''disconnect''"
    by (simp_all add: offer_of_def)
  have x: "(offer_of ''a'' [])\<lparr>To := ''b''\<rparr> = offer_of ''a'' ''b''"
    by (simp add: offer_of_def)
  show ?thesis
    using C1_relay_ignores_recipient_field
      [OF t, of "''r''" 1 "''b''" "[]" "run three_joined init_hub"]
    unfolding x by (simp add: t three_joined_state) (simp add: hub_eval)
qed

text \<open>
  In the first copy of the handler no frame is written to the entry whose key is the
  message's \<open>UserID\<close>, for any type of message.
\<close>

lemma serve_no_self_delivery:
  assumes "(src, u, dst, m') \<in> set (forwarded (serve socket conn m bad st))"
    "(src, u, dst, m') \<notin> set (forwarded st)"
  shows "u \<noteq> UserID m"
  using assms by (auto simp: serve_forwarded split: if_splits)

text \<open>
  C2 (no self-delivery) is broken by the second copy of the handler, whose loops lack the
  test on the key: the first message of participant a on a fresh connection of a fresh
  room, an offer, is written back to a.
\<close>

theorem C2_consul_copy_echoes_to_sender:
  "forwarded (serve_consul ''r'' 1 (offer_of ''a'' []) [] (admit 1 ''r'' init_hub)) =
     [(1, ''a'', 1, offer_of ''a'' [])]"
  by (simp add: serve_consul_def dispatch_consul_def hub_eval)

text \<open>
  C3 (crash removal), as stated, fails: after participant a has joined room r on
  connection 1 and the next read on that connection fails, a is still a member of r.
\<close>

theorem C3_crash_removal_counterexample:
  "map_of (clients_of (run [Open 1 ''r'', Recv 1 (connect_of ''a'') [], ReadErr 1] init_hub) ''r'') ''a''
     = Some 1"
  by (simp add: hub_eval)

text \<open>
  C3, amended: when a read on connection \<open>c\<close> fails, the handler of \<open>c\<close> returns and
  closes \<open>c\<close>, and the directory is left as it was. An entry that holds \<open>c\<close> is removed
  by the next message of type other than connect that another participant of that room
  sends, since the write to the closed connection fails.
\<close>

theorem C3_crash_removal_is_lazy:
  assumes "reading st c"
  shows "c \<in> set (finished (step (ReadErr c) st)) \<and>
         c \<in> set (closedConns (step (ReadErr c) st)) \<and>
         sockets (step (ReadErr c) st) = sockets st \<and>
         (\<forall>socket conn m bad u.
            (u, c) \<in> set (clients_of st socket) \<and> u \<noteq> UserID m \<and> Type m \<noteq> ''connect'' \<longrightarrow>
            u \<notin> fst ` set (clients_of (serve socket conn m bad (step (ReadErr c) st)) socket))"
proof -
  define st' where "st' = Close c (st\<lparr>finished := c # finished st\<rparr>)"
  have st: "step (ReadErr c) st = st'"
    using assms by (simp add: st'_def)
  have "u \<notin> fst ` set (clients_of (serve socket conn m bad st') socket)"
    if "(u, c) \<in> set (clients_of st socket)" "u \<noteq> UserID m" "Type m \<noteq> ''connect''"
    for socket conn m bad u
  proof (rule serve_drops_broken [where c = c])
    show "(u, c) \<in> set (clients_of st' socket)" using that(1) by (simp add: st'_def)
    show "write_fails st' bad c" by (simp add: st'_def write_fails_def)
  qed (use that in simp_all)
  moreover have "c \<in> set (finished st')" "c \<in> set (closedConns st')" "sockets st' = sockets st"
    by (simp_all add: st'_def)
  ultimately show ?thesis unfolding st by blast
qed

theorem C3_crash_removal_is_lazy_witness:
  "reading (run [Open 1 ''r'', Open 2 ''r'', Recv 1 (connect_of ''a'') []] init_hub) 1 \<and>
   map_of (clients_of (run [Open 1 ''r'', Open 2 ''r'', Recv 1 (connect_of ''a'') [], ReadErr 1] init_hub) ''r'') ''a'' = Some 1 \<and>
   map_of (clients_of (run [Open 1 ''r'', Open 2 ''r'', Recv 1 (connect_of ''a'') [], ReadErr 1,
     Recv 2 (offer_of ''b'' []) []] init_hub) ''r'') ''a'' = None"
proof -
  let ?st = "run [Open 1 ''r'', Open 2 ''r'', Recv 1 (connect_of ''a'') []] init_hub"
  have r: "reading ?st 1" by (simp add: hub_eval)
  have m: "(''a'', 1) \<in> set (clients_of ?st ''r'') \<and> ''a'' \<noteq> UserID (offer_of ''b'' [])
      \<and> Type (offer_of ''b'' []) \<noteq> ''connect''"
    by (simp add: hub_eval)
  from C3_crash_removal_is_lazy [OF r] m
  have "''a'' \<notin> fst ` set (clients_of (serve ''r'' 2 (offer_of ''b'' []) [] (step (ReadErr 1) ?st)) ''r'')"
    by blast
  then have n: "map_of (clients_of (serve ''r'' 2 (offer_of ''b'' []) [] (step (ReadErr 1) ?st)) ''r'') ''a'' = None"
    by (rule map_of_eq_None_iff [THEN iffD2])
  have e: "run [Open 1 ''r'', Open 2 ''r'', Recv 1 (connect_of ''a'') [], ReadErr 1,
     Recv 2 (offer_of ''b'' []) []] init_hub = serve ''r'' 2 (offer_of ''b'' []) [] (step (ReadErr 1) ?st)"
    by (simp add: hub_eval)
  have s: "map_of (clients_of (run [Open 1 ''r'', Open 2 ''r'', Recv 1 (connect_of ''a'') [], ReadErr 1] init_hub) ''r'') ''a'' = Some 1"
    by (simp add: hub_eval)
  show ?thesis
    unfolding e by (intro conjI r s n)
qed

text \<open>
  C4 (empty-room pruning), as stated, fails: after the only participant of room r has
  sent its disconnect message, the directory still maps r, to the empty set.
\<close>

theorem C4_empty_room_counterexample:
  "sockets (run [Open 1 ''r'', Recv 1 (connect_of ''a'') [], Recv 1 (disconnect_of ''a'') []] init_hub) ''r''
     = Some []"
  by (simp add: hub_eval)

text \<open>
  C4, amended: no sequence of admissions, messages and failed reads deletes a room's
  entry from the directory; a key that is in the directory stays in it, whether or not
  any participant is left.
\<close>

theorem C4_rooms_are_never_pruned:
  assumes "sockets st k \<noteq> None"
  shows "sockets (run evs st) k \<noteq> None"
  using assms run_dom [of st evs] by (auto simp: dom_def)

theorem C4_rooms_are_never_pruned_witness:
  "sockets (run [Open 1 ''r'', Recv 1 (connect_of ''a'') []] init_hub) ''r'' \<noteq> None \<and>
   sockets (run [Recv 1 (disconnect_of ''a'') []]
     (run [Open 1 ''r'', Recv 1 (connect_of ''a'') []] init_hub)) ''r'' \<noteq> None"
proof -
  have h: "sockets (run [Open 1 ''r'', Recv 1 (connect_of ''a'') []] init_hub) ''r'' \<noteq> None"
    by (simp add: hub_eval)
  show ?thesis
    using h C4_rooms_are_never_pruned [OF h, of "[Recv 1 (disconnect_of ''a'') []]"] by simp
qed

text \<open>
  C7 (room isolation): in every state the handlers reach from the empty directory, by any
  interleaving of upgrades, messages and failed reads, no frame sent on a connection
  admitted under key \<open>A\<close> has been written to a connection admitted under another key
  \<open>B\<close>.
\<close>

theorem C7_room_isolation:
  assumes "admitted (run evs init_hub) src = Some A" "admitted (run evs init_hub) dst = Some B"
    "A \<noteq> B"
  shows "(src, u, dst, m) \<notin> set (forwarded (run evs init_hub))"
proof
  assume "(src, u, dst, m) \<in> set (forwarded (run evs init_hub))"
  moreover have "log_inv (run evs init_hub)"
    using run_invs init_invs by blast
  ultimately obtain k where "admitted (run evs init_hub) src = Some k"
    "admitted (run evs init_hub) dst = Some k"
    unfolding log_inv_def by blast
  with assms show False by simp
qed

theorem C7_room_isolation_witness:
  "admitted (run two_rooms init_hub) 1 = Some ''roomA'' \<and>
   admitted (run two_rooms init_hub) 2 = Some ''roomB'' \<and> ''roomA'' \<noteq> ''roomB'' \<and>
   (1, ''b'', 2, offer_of ''a'' []) \<notin> set (forwarded (run two_rooms init_hub)) \<and>
   (1, ''c'', 3, offer_of ''a'' []) \<in> set (forwarded (run two_rooms init_hub))"
proof -
  have a: "admitted (run two_rooms init_hub) 1 = Some ''roomA''"
    and b: "admitted (run two_rooms init_hub) 2 = Some ''roomB''"
    by (simp_all add: two_rooms_def hub_eval)
  have ne: "''roomA'' \<noteq> ''roomB''" by simp
  have "(1, ''c'', 3, offer_of ''a'' []) \<in> set (forwarded (run two_rooms init_hub))"
    by (simp add: two_rooms_def hub_eval)
  with a b ne C7_room_isolation [OF a b ne, of "''b''" "offer_of ''a'' []"] show ?thesis
    by simp
qed


section \<open>Properties of the session API\<close>

subsection \<open>What the calls of CreateSession store\<close>

lemma CreateSession_db:
  "snd (CreateSession sha1 hp oid req d) =
     (case req of
        Inl err \<Rightarrow> d
      | Inr bound \<Rightarrow>
          \<lparr>sessionsCol = sessionsCol d @ [(oid, bound\<lparr>Password := hp (Password bound)\<rparr>)],
           socketsCol = socketsCol d @ [socket_of sha1 (oid, bound\<lparr>Password := hp (Password bound)\<rparr>)]\<rparr>)"
  by (simp add: CreateSession_def CreateSocket_def socket_of_def Let_def split: sum.splits)

lemma step_create:
  "snd (CreateSession sha1 (hasher c) (newID c) (request c) d) =
     \<lparr>sessionsCol = sessionsCol d @ stored c,
      socketsCol = socketsCol d @ map (socket_of sha1) (stored c)\<rparr>"
  by (simp add: CreateSession_db stored_def split: sum.splits)

lemma creates_db:
  "creates sha1 cs d =
     \<lparr>sessionsCol = sessionsCol d @ concat (map stored cs),
      socketsCol = socketsCol d @ map (socket_of sha1) (concat (map stored cs))\<rparr>"
  by (induction cs arbitrary: d) (simp_all add: step_create)

lemma stored_ids: "set (map fst (concat (map stored cs))) \<subseteq> set (map newID cs)"
  by (induction cs) (auto simp: stored_def split: sum.splits)

lemma distinct_stored_ids:
  "distinct (map newID cs) \<Longrightarrow> distinct (map fst (concat (map stored cs)))"
proof (induction cs)
  case Nil
  then show ?case by simp
next
  case (Cons c cs)
  have "newID c \<notin> fst ` set (concat (map stored cs))"
    using Cons.prems stored_ids [of cs] by auto
  with Cons show ?case
    by (auto simp: stored_def split: sum.splits)
qed

subsection \<open>The lookups by the key hashedUrl\<close>

text \<open>
  A stored document holds the room handle under the key \<^verbatim>\<open>hashedurl\<close>; the filter of both
  handlers asks for the key \<^verbatim>\<open>hashedUrl\<close>, which no stored document has. So neither lookup
  ever finds a document, whatever the store holds and whatever token is asked for.
\<close>

lemma Decode_document: "Decode (document s) = s"
  by (simp add: Decode_def document_def element_def)

lemma document_holds_handle: "matches [(''hashedurl'', HashedURL s)] (document s)"
  by (simp add: matches_def document_def)

lemma document_lacks_hashedUrl: "\<not> matches [(''hashedUrl'', v)] (document s)"
  by (simp add: matches_def document_def)

lemma FindOne_hashedUrl: "FindOne (matches [(''hashedUrl'', v)]) (map document docs) = None"
  by (simp add: FindOne_def find_None_iff document_lacks_hashedUrl)

lemma ObjectIDFromHex_empty [simp]: "ObjectIDFromHex [] = None"
  by (simp add: ObjectIDFromHex_def)

lemma ConnectSession_not_found:
  "ConnectSession cmp d url (Inr input) =
     Some \<lparr>code = StatusBadRequest, body = [[(''error'', ''Socket connection not found.'')],
        [(''error'', ''Session not found.'')]]\<rparr>"
  by (simp add: ConnectSession_def FindOne_hashedUrl JSON_def zero_Socket_def)

lemma GetSession_with_url:
  assumes "query ''url'' = Some (v # vs)"
  shows "GetSession d query =
     Done (Some \<lparr>code = StatusBadRequest, body = [[(''error'', ''Socket connection not found.'')]]\<rparr>)"
  using assms by (simp add: GetSession_def FindOne_hashedUrl JSON_def)

lemma GetSession_without_url:
  assumes "query ''url'' = None \<or> query ''url'' = Some []"
  shows "GetSession d query = Panic"
  using assms by (auto simp: GetSession_def)

lemma one_standup_stored:
  "socketsCol (creates sha1 one_standup empty_db) =
     [\<lparr>SessionID = ''0123456789abcdef01234567'', HashedURL = hashSession sha1 ''h1Standup'',
       SocketURL = hashSession sha1 ''h1hash(p1)''\<rparr>] \<and>
   sessionsCol (creates sha1 one_standup empty_db) =
     [(''0123456789abcdef01234567'', \<lparr>Host = ''h1'', Title = ''Standup'', Password = ''hash(p1)''\<rparr>)]"
  by (simp add: creates_db one_standup_def create_of_def stored_def socket_of_def empty_db_def Hex_def)

section \<open>The claims about the session API\<close>

text \<open>
  C5 (join requires the correct password) is broken by the code. A session is created
  with host h1, title Standup and password p1, which stores a socket record with the
  handle \<open>hashSession sha1 ''h1Standup''\<close>; a join at that handle with the password p1 is
  answered with status 400 and the error ``Socket connection not found.'', whatever the
  digest and the password comparison are: the record is stored under the key
  \<^verbatim>\<open>hashedurl\<close> and looked up under the key \<^verbatim>\<open>hashedUrl\<close>.
\<close>

theorem C5_correct_password_is_refused:
  "HashedURL (hd (socketsCol (creates sha1 one_standup empty_db))) = hashSession sha1 ''h1Standup'' \<and>
   Password (snd (hd (sessionsCol (creates sha1 one_standup empty_db)))) = ''hash(p1)'' \<and>
   ConnectSession cmp (creates sha1 one_standup empty_db) (hashSession sha1 ''h1Standup'')
       (join_with ''p1'') =
     Some \<lparr>code = StatusBadRequest, body = [[(''error'', ''Socket connection not found.'')],
        [(''error'', ''Session not found.'')]]\<rparr>"
  by (simp add: one_standup_stored join_with_def ConnectSession_not_found)

text \<open>
  C6 (a mismatch and an unknown target are answered alike): the answer of
  \<^verbatim>\<open>ConnectSession\<close> to a request whose body binds does not depend on the token in the
  path nor on the password, on any store; in particular the answer to a wrong password
  for the handle of a stored session is the answer for a token that was never stored,
  status and body.
\<close>

theorem C6_mismatch_and_unknown_answer_alike:
  "ConnectSession cmp d url (Inr input) = ConnectSession cmp d url' (Inr input')"
  by (simp add: ConnectSession_not_found)

theorem C6_mismatch_and_unknown_answer_alike_witness:
  "HashedURL (hd (socketsCol (creates toy_digest one_standup empty_db))) =
     hashSession toy_digest ''h1Standup'' \<and>
   \<not> toy_compare (Password (snd (hd (sessionsCol (creates toy_digest one_standup empty_db))))) ''wrong'' \<and>
   ''unknown'' \<notin> set (map HashedURL (socketsCol (creates toy_digest one_standup empty_db))) \<and>
   ConnectSession toy_compare (creates toy_digest one_standup empty_db)
       (hashSession toy_digest ''h1Standup'') (join_with ''wrong'') =
   ConnectSession toy_compare (creates toy_digest one_standup empty_db) ''unknown'' (join_with ''wrong'')"
proof -
  have "ConnectSession toy_compare (creates toy_digest one_standup empty_db)
       (hashSession toy_digest ''h1Standup'') (join_with ''wrong'') =
     ConnectSession toy_compare (creates toy_digest one_standup empty_db) ''unknown'' (join_with ''wrong'')"
    unfolding join_with_def by (rule C6_mismatch_and_unknown_answer_alike)
  then show ?thesis
    by (simp add: one_standup_stored toy_compare_def hashSession_def toy_digest_def
        EncodeToString_def hexdigit_def)
qed

text \<open>
  C8 (a handle resolves to exactly one session), as stated, fails: two calls of
  \<^verbatim>\<open>CreateSession\<close> with the same host and title, under any digest function, leave two
  socket records with the same hashed URL and different session ids.
\<close>

theorem C8_handle_collision_counterexample:
  "\<forall>sha1. \<exists>s \<in> set (socketsCol (creates sha1 two_standups empty_db)).
          \<exists>s' \<in> set (socketsCol (creates sha1 two_standups empty_db)).
            HashedURL s = HashedURL s' \<and> SessionID s \<noteq> SessionID s'"
  by (simp add: creates_db two_standups_def create_of_def stored_def socket_of_def empty_db_def Hex_def)

text \<open>
  C8, amended: after any sequence of calls of \<^verbatim>\<open>CreateSession\<close> on the empty store, with
  pairwise distinct ids assigned by the store, the socket records are the images of the
  stored sessions, every record's session id names exactly one stored session, the hashed
  URLs of the records are pairwise distinct when the digests of host and title of the
  stored sessions are, and the socket URLs are pairwise distinct when the digests of host
  and hashed password are.
\<close>

theorem C8_unique_when_hashes_differ:
  assumes "distinct (map newID cs)"
  shows
    "socketsCol (creates sha1 cs empty_db) = map (socket_of sha1) (sessionsCol (creates sha1 cs empty_db)) \<and>
     sessionsCol (creates sha1 cs empty_db) = concat (map stored cs) \<and>
     (\<forall>s \<in> set (socketsCol (creates sha1 cs empty_db)).
        \<exists>!p. p \<in> set (sessionsCol (creates sha1 cs empty_db)) \<and> Hex (fst p) = SessionID s) \<and>
     (distinct (map (\<lambda>p. hashSession sha1 (Host (snd p) @ Title (snd p))) (concat (map stored cs))) \<longrightarrow>
        distinct (map HashedURL (socketsCol (creates sha1 cs empty_db)))) \<and>
     (distinct (map (\<lambda>p. hashSession sha1 (Host (snd p) @ Password (snd p))) (concat (map stored cs))) \<longrightarrow>
        distinct (map SocketURL (socketsCol (creates sha1 cs empty_db))))"
proof -
  let ?ps = "concat (map stored cs)"
  have ses: "sessionsCol (creates sha1 cs empty_db) = ?ps"
    and soc: "socketsCol (creates sha1 cs empty_db) = map (socket_of sha1) ?ps"
    by (simp_all add: creates_db empty_db_def)
  have d: "distinct (map fst ?ps)"
    using assms by (rule distinct_stored_ids)
  have one: "\<exists>!p. p \<in> set ?ps \<and> Hex (fst p) = SessionID s" if "s \<in> set (map (socket_of sha1) ?ps)" for s
  proof -
    from that obtain q where q: "q \<in> set ?ps" "s = socket_of sha1 q" by auto
    show ?thesis
    proof (rule ex1I [of _ q])
      show "q \<in> set ?ps \<and> Hex (fst q) = SessionID s"
        using q by (simp add: socket_of_def)
    next
      fix p
      assume "p \<in> set ?ps \<and> Hex (fst p) = SessionID s"
      then have "p \<in> set ?ps" "fst p = fst q"
        using q by (simp_all add: socket_of_def Hex_def)
      with d q(1) show "p = q"
        by (metis eq_key_imp_eq_value prod.collapse)
    qed
  qed
  have h: "map HashedURL (map (socket_of sha1) ?ps) =
      map (\<lambda>p. hashSession sha1 (Host (snd p) @ Title (snd p))) ?ps"
    by (simp add: socket_of_def)
  have t: "map SocketURL (map (socket_of sha1) ?ps) =
      map (\<lambda>p. hashSession sha1 (Host (snd p) @ Password (snd p))) ?ps"
    by (simp add: socket_of_def)
  show ?thesis
    unfolding ses soc h t using one by blast
qed

theorem C8_unique_when_hashes_differ_witness:
  "distinct (map newID two_titles) \<and>
   map SessionID (socketsCol (creates toy_digest two_titles empty_db)) =
     [''0123456789abcdef01234567'', ''0123456789abcdef01234568''] \<and>
   distinct (map HashedURL (socketsCol (creates toy_digest two_titles empty_db)))"
proof -
  have a: "distinct (map newID two_titles)"
    by (simp add: two_titles_def create_of_def)
  have ps: "concat (map stored two_titles) =
      [(''0123456789abcdef01234567'', \<lparr>Host = ''h1'', Title = ''Standup'', Password = ''hash(p1)''\<rparr>),
       (''0123456789abcdef01234568'', \<lparr>Host = ''h1'', Title = ''Retro'', Password = ''hash(p1)''\<rparr>)]"
    by (simp add: two_titles_def create_of_def stored_def)
  have b: "distinct (map (\<lambda>p. hashSession toy_digest (Host (snd p) @ Title (snd p)))
      (concat (map stored two_titles)))"
    unfolding ps by (simp add: hashSession_def toy_digest_def EncodeToString_def hexdigit_def)
  note T = C8_unique_when_hashes_differ [OF a, of toy_digest]
  have c: "socketsCol (creates toy_digest two_titles empty_db) =
      map (socket_of toy_digest) (concat (map stored two_titles))"
    using T [THEN conjunct1] T [THEN conjunct2, THEN conjunct1] by (rule back_subst [where P = "\<lambda>x. _ = map _ x"])
  have d: "distinct (map HashedURL (socketsCol (creates toy_digest two_titles empty_db)))"
    using b by (rule T [THEN conjunct2, THEN conjunct2, THEN conjunct2, THEN conjunct1, THEN mp])
  have "map SessionID (socketsCol (creates toy_digest two_titles empty_db)) =
     [''0123456789abcdef01234567'', ''0123456789abcdef01234568'']"
    unfolding c ps by (simp add: socket_of_def Hex_def)
  with a d show ?thesis by (intro conjI)
qed

text \<open>
  C10 (the probe handler), as stated, fails. A request without the parameter \<^verbatim>\<open>url\<close>
  does get an answer at the route: the handler panics and the recovery middleware answers
  with status 500. And after a session was created with host h1 and title Standup, the
  probe for its handle is answered with status 400 although a socket record with that
  hashed URL is stored.
\<close>

theorem C10_probe_counterexample:
  "GET_connect empty_db Map.empty = Some \<lparr>code = 500, body = []\<rparr> \<and>
   (\<forall>sha1. HashedURL (hd (socketsCol (creates sha1 one_standup empty_db))) =
        hashSession sha1 ''h1Standup'' \<and>
      GetSession (creates sha1 one_standup empty_db) [''url'' \<mapsto> [hashSession sha1 ''h1Standup'']] =
        Done (Some \<lparr>code = 400, body = [[(''error'', ''Socket connection not found.'')]]\<rparr>))"
  by (simp add: GET_connect_def Recovery_def GetSession_without_url GetSession_with_url
      one_standup_stored StatusInternalServerError_def StatusBadRequest_def)

text \<open>
  C10, amended: when the query has no parameter \<^verbatim>\<open>url\<close>, \<^verbatim>\<open>GetSession\<close> panics and writes
  nothing, and the route answers with status 500 through the recovery middleware. Only
  when the query has the parameter does the handler write the answer itself: for the
  first value of the parameter, status 200 with an empty body when \<^verbatim>\<open>FindOne\<close> with the
  filter \<^verbatim>\<open>hashedUrl\<close> finds a document, and status 400 with the error
  ``Socket connection not found.'' otherwise.
\<close>

theorem C10_probe_panic_is_recovered:
  "(query ''url'' = None \<or> query ''url'' = Some [] \<longrightarrow>
      GetSession d query = Panic \<and>
      GET_connect d query = Some \<lparr>code = StatusInternalServerError, body = []\<rparr>) \<and>
   (\<forall>v vs. query ''url'' = Some (v # vs) \<longrightarrow>
      (\<exists>r. GetSession d query = Done (Some r) \<and> GET_connect d query = Some r \<and>
         (code r = StatusOK \<longleftrightarrow>
            FindOne (matches [(''hashedUrl'', v)]) (map document (socketsCol d)) \<noteq> None) \<and>
         (code r = StatusOK \<and> body r = [] \<or>
          code r = StatusBadRequest \<and> body r = [[(''error'', ''Socket connection not found.'')]])))"
proof (intro conjI allI impI)
  assume q: "query ''url'' = None \<or> query ''url'' = Some []"
  then show "GetSession d query = Panic" by (rule GetSession_without_url)
  then show "GET_connect d query = Some \<lparr>code = StatusInternalServerError, body = []\<rparr>"
    by (simp add: GET_connect_def Recovery_def)
next
  fix v vs
  assume q: "query ''url'' = Some (v # vs)"
  let ?found = "FindOne (matches [(''hashedUrl'', v)]) (map document (socketsCol d))"
  show "\<exists>r. GetSession d query = Done (Some r) \<and> GET_connect d query = Some r \<and>
         (code r = StatusOK \<longleftrightarrow> ?found \<noteq> None) \<and>
         (code r = StatusOK \<and> body r = [] \<or>
          code r = StatusBadRequest \<and> body r = [[(''error'', ''Socket connection not found.'')]])"
  proof (cases ?found)
    case None
    with q show ?thesis
      by (simp add: GET_connect_def Recovery_def GetSession_def JSON_def StatusOK_def
          StatusBadRequest_def)
  next
    case (Some doc)
    with q show ?thesis
      by (simp add: GET_connect_def Recovery_def GetSession_def Status_def)
  qed
qed

theorem C10_probe_panic_is_recovered_witness:
  "GetSession empty_db Map.empty = Panic \<and>
   GET_connect empty_db Map.empty = Some \<lparr>code = StatusInternalServerError, body = []\<rparr> \<and>
   (\<exists>r. GetSession empty_db [''url'' \<mapsto> [''abc'']] = Done (Some r) \<and>
        GET_connect empty_db [''url'' \<mapsto> [''abc'']] = Some r \<and> code r = StatusBadRequest)"
proof -
  have 1: "GetSession empty_db Map.empty = Panic \<and>
      GET_connect empty_db Map.empty = Some \<lparr>code = StatusInternalServerError, body = []\<rparr>"
    using C10_probe_panic_is_recovered [of Map.empty empty_db] by simp
  have "FindOne (matches [(''hashedUrl'', ''abc'')]) (map document (socketsCol empty_db)) = None"
    by (simp add: empty_db_def FindOne_def)
  then have 2: "\<exists>r. GetSession empty_db [''url'' \<mapsto> [''abc'']] = Done (Some r) \<and>
        GET_connect empty_db [''url'' \<mapsto> [''abc'']] = Some r \<and> code r = StatusBadRequest"
    using C10_probe_panic_is_recovered [of "[''url'' \<mapsto> [''abc'']]" empty_db]
    by (auto simp: StatusOK_def StatusBadRequest_def)
  from 1 2 show ?thesis by simp
qed

end
